theory Spec2Isabelle
  imports Complex_Main "HOL-Library.Word" "HOL-Library.Multiset" "HOL-Library.Log_Nat"
begin

section \<open>Sliding-window median (\<^verbatim>\<open>probability/windowed_median.cpp\<close>)\<close>

text \<open>
  The class \<^verbatim>\<open>probability::WindowedMedian\<close> keeps the last \<^verbatim>\<open>_windowSize\<close> values of a
  stream in a \<^verbatim>\<open>std::list<int>\<close>, the same values in a \<^verbatim>\<open>std::multiset<int>\<close>, and an
  iterator \<^verbatim>\<open>_itMedian\<close> into the multiset. The embedding below follows the member
  functions line by line.

  \<^item> Stream values are C++ \<^verbatim>\<open>int\<close>s. The class only compares them and converts them to
    \<^verbatim>\<open>float\<close>; it never adds or multiplies them as integers, so they are modelled as
    \<^typ>\<open>int\<close> and no wrap-around can occur.
  \<^item> \<^verbatim>\<open>_windowSize\<close> is a 32-bit \<^verbatim>\<open>int\<close> that is compared with the \<^verbatim>\<open>size_t\<close> result of
    \<^verbatim>\<open>_window.size()\<close>; the usual arithmetic conversions turn it into a 64-bit unsigned
    value first. It is a \<^typ>\<open>32 word\<close> read as two's complement.
  \<^item> The C++ code has no \<^verbatim>\<open>throw\<close>. What can go wrong is undefined behaviour: using an
    iterator that denotes no element. Undefined behaviour is the error value
    \<open>UndefinedBehaviour\<close>.
\<close>

subsection \<open>Errors\<close>

text \<open>
  \<open>InvalidArgument\<close> and \<open>EmptyStateError\<close> are the two conditions the specification names;
  no line of the source raises them.
\<close>

datatype error = InvalidArgument | EmptyStateError | UndefinedBehaviour

definition bindE :: "error + 'a \<Rightarrow> ('a \<Rightarrow> error + 'b) \<Rightarrow> error + 'b" where
  "bindE m f = (case m of Inl e \<Rightarrow> Inl e | Inr x \<Rightarrow> f x)"

subsection \<open>\<^verbatim>\<open>std::multiset<int>\<close> and its iterators\<close>

text \<open>
  A multiset of ints is the list of its nodes in iteration order, which is non-decreasing.
  An iterator is the rank of the node it denotes: \<open>Pos k\<close> is the \<open>k\<close>-th node, and
  \<open>Pos (length vs)\<close> is \<^verbatim>\<open>end()\<close>. \<open>Singular\<close> is a default-constructed iterator and \<open>Erased\<close>
  an iterator whose node has been erased; neither may be dereferenced or moved.

  Iterators of a \<^verbatim>\<open>std::multiset\<close> stay attached to their node: when another node is
  inserted or erased in front of it, the rank of the node changes by one, and
  \<open>it_after_insert\<close> and \<open>it_after_erase\<close> record that.
\<close>

datatype iterator = Singular | Pos nat | Erased

definition lower_bound :: "int \<Rightarrow> int list \<Rightarrow> nat" where
  "lower_bound v vs = length (takeWhile (\<lambda>x. x < v) vs)"

definition upper_bound :: "int \<Rightarrow> int list \<Rightarrow> nat" where
  "upper_bound v vs = length (takeWhile (\<lambda>x. x \<le> v) vs)"

text \<open>\<^verbatim>\<open>insert(value)\<close> puts the new node at the upper bound of the equal range (C++11).\<close>

definition ms_insert :: "int \<Rightarrow> int list \<Rightarrow> int list" where
  "ms_insert v vs = take (upper_bound v vs) vs @ v # drop (upper_bound v vs) vs"

definition it_after_insert :: "nat \<Rightarrow> iterator \<Rightarrow> iterator" where
  "it_after_insert p it =
     (case it of Pos k \<Rightarrow> (if p \<le> k then Pos (Suc k) else Pos k) | _ \<Rightarrow> it)"

text \<open>
  \<^verbatim>\<open>find(value)\<close> returns the first node of the equal range, or \<^verbatim>\<open>end()\<close>. The source
  relies on it ("Find the (first) position of the value we want to erase"), and it is what
  the red-black trees of libstdc++, libc++ and the Microsoft library do: they search for
  the lower bound.
\<close>

definition ms_find :: "int \<Rightarrow> int list \<Rightarrow> iterator" where
  "ms_find v vs =
     (let p = lower_bound v vs
      in if p < length vs \<and> vs ! p = v then Pos p else Pos (length vs))"

text \<open>\<^verbatim>\<open>erase(it)\<close> needs an iterator that denotes a node; it returns the rank erased too.\<close>

definition ms_erase :: "iterator \<Rightarrow> int list \<Rightarrow> error + (nat \<times> int list)" where
  "ms_erase it vs =
     (case it of
        Pos p \<Rightarrow> (if p < length vs then Inr (p, take p vs @ drop (Suc p) vs)
                  else Inl UndefinedBehaviour)
      | _ \<Rightarrow> Inl UndefinedBehaviour)"

definition it_after_erase :: "nat \<Rightarrow> iterator \<Rightarrow> iterator" where
  "it_after_erase p it =
     (case it of
        Pos k \<Rightarrow> (if k = p then Erased else if p < k then Pos (k - 1) else Pos k)
      | _ \<Rightarrow> it)"

definition deref :: "int list \<Rightarrow> iterator \<Rightarrow> error + int" where
  "deref vs it =
     (case it of
        Pos k \<Rightarrow> (if k < length vs then Inr (vs ! k) else Inl UndefinedBehaviour)
      | _ \<Rightarrow> Inl UndefinedBehaviour)"

definition it_inc :: "int list \<Rightarrow> iterator \<Rightarrow> error + iterator" where
  "it_inc vs it =
     (case it of
        Pos k \<Rightarrow> (if k < length vs then Inr (Pos (Suc k)) else Inl UndefinedBehaviour)
      | _ \<Rightarrow> Inl UndefinedBehaviour)"

definition it_dec :: "int list \<Rightarrow> iterator \<Rightarrow> error + iterator" where
  "it_dec vs it =
     (case it of
        Pos k \<Rightarrow> (if 0 < k \<and> k \<le> length vs then Inr (Pos (k - 1))
                  else Inl UndefinedBehaviour)
      | _ \<Rightarrow> Inl UndefinedBehaviour)"

subsection \<open>Single-precision arithmetic\<close>

text \<open>
  \<^verbatim>\<open>getMedian\<close> returns a \<^verbatim>\<open>float\<close>. A float is modelled by the rational number it
  stands for. \<open>f32_round\<close> rounds a rational to the nearest number with a 24-bit
  significand, ties to the even significand, as IEEE 754 binary32 does in its default
  rounding mode, every operation being rounded on its own. The exponent
  \<open>\<lfloor>log\<^sub>2 \<bar>x\<bar>\<rfloor>\<close> is read off the bit length of \<open>\<lfloor>\<bar>x\<bar> \<sqdot> 2\<^sup>1\<^sup>4\<^sup>9\<rfloor>\<close>. The model has no overflow to
  infinity and no subnormal numbers: it agrees with binary32 on magnitudes from
  \<open>2\<^sup>-\<^sup>1\<^sup>2\<^sup>6\<close> up to \<open>2\<^sup>1\<^sup>2\<^sup>8\<close>, and every float this class computes is \<open>0\<close> or has a
  magnitude between \<open>1/2\<close> and \<open>2\<^sup>3\<^sup>2\<close>.
\<close>

type_synonym float32 = rat

definition round_half_even :: "rat \<Rightarrow> int" where
  "round_half_even q =
     (let f = \<lfloor>q\<rfloor>; r = q - of_int f
      in if r < 1 / 2 then f else if 1 / 2 < r then f + 1
         else if even f then f else f + 1)"

definition f32_exponent :: "rat \<Rightarrow> int" where
  "f32_exponent x = bitlen \<lfloor>\<bar>x\<bar> * 2 ^ 149\<rfloor> - 150"

definition f32_round :: "rat \<Rightarrow> float32" where
  "f32_round x =
     (if x = 0 then 0
      else let u = 2 powi (f32_exponent x - 23)
           in sgn x * of_int (round_half_even (\<bar>x\<bar> / u)) * u)"

definition f32_of_int :: "int \<Rightarrow> float32" where
  "f32_of_int i = f32_round (of_int i)"

definition f32_mul :: "float32 \<Rightarrow> float32 \<Rightarrow> float32" where
  "f32_mul x y = f32_round (x * y)"

definition f32_add :: "float32 \<Rightarrow> float32 \<Rightarrow> float32" where
  "f32_add x y = f32_round (x + y)"

subsection \<open>The class \<^verbatim>\<open>WindowedMedian\<close>\<close>

record wm_state =
  windowSize :: "32 word"
  window :: "int list"
  sortedValues :: "int list"
  itMedian :: iterator

text \<open>
  \<^verbatim>\<open>_window.size() > _windowSize\<close> compares a \<^verbatim>\<open>size_t\<close> with an \<^verbatim>\<open>int\<close>: the \<^verbatim>\<open>int\<close> is
  sign-extended to 64 bits and read as unsigned.
\<close>

definition size_t_of_int :: "32 word \<Rightarrow> nat" where
  "size_t_of_int w = unat (scast w :: 64 word)"

text \<open>
  \<^verbatim>\<open>insertToSorted\<close>: insert the value, then move the iterator by the parity of the new
  size and the side the value fell on. Both conditions read \<^verbatim>\<open>*_itMedian\<close>.
\<close>

definition insertToSorted :: "int \<Rightarrow> wm_state \<Rightarrow> error + wm_state" where
  "insertToSorted val s =
     (let vs = ms_insert val (sortedValues s);
          it = it_after_insert (upper_bound val (sortedValues s)) (itMedian s);
          sz = length vs
      in if sz = 1 then Inr (s\<lparr>sortedValues := vs, itMedian := Pos 0\<rparr>)
         else bindE (deref vs it) (\<lambda>cur.
           if val < cur \<and> sz mod 2 = 0 then
             bindE (it_dec vs it) (\<lambda>it'. Inr (s\<lparr>sortedValues := vs, itMedian := it'\<rparr>))
           else if val \<ge> cur \<and> sz mod 2 \<noteq> 0 then
             bindE (it_inc vs it) (\<lambda>it'. Inr (s\<lparr>sortedValues := vs, itMedian := it'\<rparr>))
           else Inr (s\<lparr>sortedValues := vs, itMedian := it\<rparr>)))"

text \<open>
  \<^verbatim>\<open>eraseFromSorted\<close>: move the iterator first, by the size and values before the removal,
  then \<^verbatim>\<open>find\<close> the value and \<^verbatim>\<open>erase\<close> what was found.
\<close>

definition eraseFromSorted :: "int \<Rightarrow> wm_state \<Rightarrow> error + wm_state" where
  "eraseFromSorted val s =
     (let vs = sortedValues s; sz = length vs
      in bindE (deref vs (itMedian s)) (\<lambda>cur.
         bindE (if val \<le> cur \<and> sz mod 2 = 0 then it_inc vs (itMedian s)
                else if val \<ge> cur \<and> sz mod 2 \<noteq> 0 then it_dec vs (itMedian s)
                else Inr (itMedian s)) (\<lambda>it.
         bindE (ms_erase (ms_find val vs) vs) (\<lambda>(p, vs').
           Inr (s\<lparr>sortedValues := vs', itMedian := it_after_erase p it\<rparr>)))))"

text \<open>The constructor stores its argument and checks nothing.\<close>

definition WindowedMedian :: "32 word \<Rightarrow> error + wm_state" where
  "WindowedMedian ws =
     Inr \<lparr>windowSize = ws, window = [], sortedValues = [], itMedian = Singular\<rparr>"

text \<open>\<^verbatim>\<open>_window.front()\<close> of an empty list is undefined.\<close>

definition front :: "int list \<Rightarrow> error + int" where
  "front w = (case w of [] \<Rightarrow> Inl UndefinedBehaviour | x # _ \<Rightarrow> Inr x)"

definition insert_value :: "int \<Rightarrow> wm_state \<Rightarrow> error + wm_state" where
  "insert_value val s =
     bindE (insertToSorted val (s\<lparr>window := window s @ [val]\<rparr>)) (\<lambda>s1.
       if length (window s1) > size_t_of_int (windowSize s1) then
         bindE (front (window s1)) (\<lambda>old.
         bindE (eraseFromSorted old s1) (\<lambda>s2.
           Inr (s2\<lparr>window := tl (window s2)\<rparr>)))
       else Inr s1)"

text \<open>\<^verbatim>\<open>0.5f\<close> is a float exactly.\<close>

definition f32_half :: float32 where
  "f32_half = 1 / 2"

definition getMedian :: "wm_state \<Rightarrow> error + float32" where
  "getMedian s =
     (let vs = sortedValues s
      in if length vs mod 2 \<noteq> 0 then
           bindE (deref vs (itMedian s)) (\<lambda>m. Inr (f32_of_int m))
         else
           bindE (deref vs (itMedian s)) (\<lambda>m.
           bindE (it_inc vs (itMedian s)) (\<lambda>nx.
           bindE (deref vs nx) (\<lambda>m'.
             Inr (f32_add (f32_mul f32_half (f32_of_int m))
                          (f32_mul f32_half (f32_of_int m')))))))"

text \<open>
  \<^verbatim>\<open>getMedianNaive\<close> sorts a copy of the window. \<^verbatim>\<open>*next(window.begin(), k)\<close> is defined
  for \<open>k\<close> below the size only.
\<close>

definition list_at :: "int list \<Rightarrow> nat \<Rightarrow> error + int" where
  "list_at w k = (if k < length w then Inr (w ! k) else Inl UndefinedBehaviour)"

definition getMedianNaive :: "wm_state \<Rightarrow> error + float32" where
  "getMedianNaive s =
     (let w = sort (window s)
      in bindE (list_at w (length w div 2)) (\<lambda>median.
           if length w mod 2 \<noteq> 0 then Inr (f32_of_int median)
           else bindE (list_at w (length w div 2 - 1)) (\<lambda>lo.
             Inr (f32_add (f32_mul f32_half (f32_of_int median))
                          (f32_mul f32_half (f32_of_int lo))))))"

text \<open>
  The driver \<^verbatim>\<open>test\<close> constructs the object and inserts the values of a vector one after
  the other; \<open>insert_all\<close> is that loop and \<open>run\<close> the two together.
\<close>

fun insert_all :: "int list \<Rightarrow> wm_state \<Rightarrow> error + wm_state" where
  "insert_all [] s = Inr s"
| "insert_all (v # vs) s = bindE (insert_value v s) (insert_all vs)"

definition run :: "32 word \<Rightarrow> int list \<Rightarrow> error + wm_state" where
  "run ws vals = bindE (WindowedMedian ws) (insert_all vals)"

subsection \<open>The two containers on their own\<close>

text \<open>
  In \<^verbatim>\<open>insertToSorted\<close> and \<^verbatim>\<open>eraseFromSorted\<close> the statements about \<^verbatim>\<open>_itMedian\<close> (lines
  45 to 61 and 69 to 81) read the multiset and assign nothing but \<^verbatim>\<open>_itMedian\<close>; the
  statements that change \<^verbatim>\<open>_window\<close> and \<^verbatim>\<open>_sortedValues\<close> never read it. What a call of
  \<^verbatim>\<open>insert\<close> does to the two containers is therefore the remaining lines alone:
  \<^verbatim>\<open>push_back\<close> (103), the multiset \<^verbatim>\<open>insert\<close> (44), the size test (105), \<^verbatim>\<open>front\<close> (106),
  \<^verbatim>\<open>find\<close> and \<^verbatim>\<open>erase\<close> (84 and 85) and \<^verbatim>\<open>pop_front\<close> (107). \<open>insert_containers\<close> is
  those lines on the pair of the window and the multiset; it still fails when \<^verbatim>\<open>find\<close>
  returns \<^verbatim>\<open>end()\<close>.
\<close>

definition insert_containers ::
    "32 word \<Rightarrow> int \<Rightarrow> int list \<times> int list \<Rightarrow> error + (int list \<times> int list)" where
  "insert_containers ws val c =
     (let w = fst c @ [val]; vs = ms_insert val (snd c)
      in if length w > size_t_of_int ws then
           bindE (front w) (\<lambda>old.
           bindE (ms_erase (ms_find old vs) vs) (\<lambda>(p, vs'). Inr (tl w, vs')))
         else Inr (w, vs))"

fun insert_all_containers ::
    "32 word \<Rightarrow> int list \<Rightarrow> int list \<times> int list \<Rightarrow> error + (int list \<times> int list)" where
  "insert_all_containers ws [] c = Inr c"
| "insert_all_containers ws (v # vs) c =
     bindE (insert_containers ws v c) (insert_all_containers ws vs)"

definition run_containers :: "32 word \<Rightarrow> int list \<Rightarrow> error + (int list \<times> int list)" where
  "run_containers ws vals = insert_all_containers ws vals ([], [])"

subsection \<open>The intended state\<close>

text \<open>
  The class comment asks for the multiset to hold the window's values and for the iterator
  to denote the lower median, the node of rank \<open>\<lfloor>(n - 1) / 2\<rfloor>\<close> among \<open>n\<close>.
\<close>

definition wm_inv :: "wm_state \<Rightarrow> bool" where
  "wm_inv s \<longleftrightarrow>
     sortedValues s = sort (window s) \<and>
     (window s \<noteq> [] \<longrightarrow> itMedian s = Pos ((length (window s) - 1) div 2))"

section \<open>Lower and upper bounds of a sorted list\<close>

lemma upper_bound_le_iff:
  "sorted vs \<Longrightarrow> m < length vs \<Longrightarrow> (upper_bound v vs \<le> m) = (v < vs ! m)"
proof (induction vs arbitrary: m)
  case Nil then show ?case by simp
next
  case (Cons a vs)
  show ?case
  proof (cases m)
    case 0 then show ?thesis by (simp add: upper_bound_def)
  next
    case (Suc k)
    with Cons.prems have k: "k < length vs" and s: "sorted vs" and a: "\<forall>x\<in>set vs. a \<le> x" by auto
    from k a have "a \<le> vs ! k" by simp
    with Cons.IH[OF s k] Suc show ?thesis by (auto simp: upper_bound_def)
  qed
qed

lemma lower_bound_le_iff:
  "sorted vs \<Longrightarrow> m < length vs \<Longrightarrow> (lower_bound v vs \<le> m) = (v \<le> vs ! m)"
proof (induction vs arbitrary: m)
  case Nil then show ?case by simp
next
  case (Cons a vs)
  show ?case
  proof (cases m)
    case 0 then show ?thesis by (simp add: lower_bound_def)
  next
    case (Suc k)
    with Cons.prems have k: "k < length vs" and s: "sorted vs" and a: "\<forall>x\<in>set vs. a \<le> x" by auto
    from k a have "a \<le> vs ! k" by simp
    with Cons.IH[OF s k] Suc show ?thesis by (auto simp: lower_bound_def)
  qed
qed

lemma upper_bound_le_length: "upper_bound v vs \<le> length vs"
  by (simp add: upper_bound_def length_takeWhile_le)

lemma lower_bound_le_length: "lower_bound v vs \<le> length vs"
  by (simp add: lower_bound_def length_takeWhile_le)

lemma ms_insert_eq_insort: "sorted vs \<Longrightarrow> ms_insert v vs = insort v vs"
proof (induction vs)
  case Nil then show ?case by (simp add: ms_insert_def upper_bound_def)
next
  case (Cons a vs)
  then show ?case by (auto simp: ms_insert_def upper_bound_def insort_is_Cons)
qed

lemma ms_insert_sort: "ms_insert v (sort w) = sort (w @ [v])"
proof -
  have "sort (w @ [v]) = insort v (sort w)"
    by (rule properties_for_sort) (simp_all add: sorted_insort)
  then show ?thesis by (simp add: ms_insert_eq_insort)
qed

lemma length_ms_insert: "length (ms_insert v vs) = Suc (length vs)"
  using upper_bound_le_length[of v vs] by (simp add: ms_insert_def)

lemma nth_ms_insert:
  assumes "k \<le> length vs"
  shows "ms_insert v vs ! k =
     (if k < upper_bound v vs then vs ! k else if k = upper_bound v vs then v else vs ! (k - 1))"
proof -
  let ?p = "upper_bound v vs"
  have p: "?p \<le> length vs" by (rule upper_bound_le_length)
  have len: "length (take ?p vs) = ?p" using p by simp
  consider "k < ?p" | "k = ?p" | "?p < k" by linarith
  then show ?thesis
  proof cases
    case 1
    then show ?thesis using p by (simp add: ms_insert_def nth_append)
  next
    case 2
    then show ?thesis using p by (simp add: ms_insert_def nth_append)
  next
    case 3
    then obtain j where j: "k = Suc (?p + j)" using less_iff_Suc_add by auto
    have "ms_insert v vs ! k = (v # drop ?p vs) ! (k - ?p)"
      using 3 p by (simp add: ms_insert_def nth_append)
    also have "\<dots> = drop ?p vs ! j" using j by simp
    also have "\<dots> = vs ! (?p + j)" using p assms j by simp
    finally show ?thesis using 3 j by simp
  qed
qed

lemma lower_bound_first:
  "sorted vs \<Longrightarrow> v \<in> set vs \<Longrightarrow> lower_bound v vs < length vs \<and> vs ! lower_bound v vs = v"
  by (induction vs) (auto simp: lower_bound_def)

lemma erase_lower_bound:
  "sorted vs \<Longrightarrow> v \<in> set vs \<Longrightarrow>
     take (lower_bound v vs) vs @ drop (Suc (lower_bound v vs)) vs = remove1 v vs"
  by (induction vs) (auto simp: lower_bound_def)

lemma remove1_hd_sort: "w \<noteq> [] \<Longrightarrow> remove1 (hd w) (sort w) = sort (tl w)"
proof -
  assume "w \<noteq> []"
  then obtain x w' where w: "w = x # w'" by (cases w) auto
  have "sort (tl w) = remove1 (hd w) (sort w)"
    by (rule properties_for_sort) (simp_all add: w sorted_remove1)
  then show ?thesis by simp
qed


section \<open>One insertion into and one removal from the multiset\<close>

lemma bindE_Inr [simp]: "bindE (Inr x) f = f x"
  by (simp add: bindE_def)

lemma bindE_Inl [simp]: "bindE (Inl e) f = Inl e"
  by (simp add: bindE_def)

lemma insertToSorted_median:
  assumes srt: "sorted (sortedValues s)"
    and it: "sortedValues s \<noteq> [] \<longrightarrow> itMedian s = Pos ((length (sortedValues s) - 1) div 2)"
  shows "insertToSorted v s =
           Inr (s\<lparr>sortedValues := ms_insert v (sortedValues s),
                  itMedian := Pos (length (sortedValues s) div 2)\<rparr>)"
proof (cases "sortedValues s = []")
  case True
  then show ?thesis
    by (simp add: insertToSorted_def ms_insert_def upper_bound_def)
next
  case False
  define vs where "vs = sortedValues s"
  define n where "n = length vs"
  define m where "m = (n - 1) div 2"
  define p where "p = upper_bound v vs"
  define vs' where "vs' = ms_insert v vs"
  from False have n: "0 < n" by (simp add: n_def vs_def)
  then have m: "m < n" unfolding m_def by arith
  from False it have itm: "itMedian s = Pos m" by (simp add: m_def n_def vs_def)
  have len: "length vs' = Suc n" unfolding vs'_def n_def by (rule length_ms_insert)
  have side: "(p \<le> m) = (v < vs ! m)"
    unfolding p_def using srt m unfolding vs_def[symmetric] n_def
    by (rule upper_bound_le_iff)
  have nth: "\<And>k. k \<le> n \<Longrightarrow> vs' ! k = (if k < p then vs ! k else if k = p then v else vs ! (k - 1))"
    unfolding vs'_def p_def n_def by (rule nth_ms_insert)
  have unf: "insertToSorted v s =
      bindE (deref vs' (it_after_insert p (Pos m))) (\<lambda>cur.
           if v < cur \<and> length vs' mod 2 = 0 then
             bindE (it_dec vs' (it_after_insert p (Pos m))) (\<lambda>it'. Inr (s\<lparr>sortedValues := vs', itMedian := it'\<rparr>))
           else if v \<ge> cur \<and> length vs' mod 2 \<noteq> 0 then
             bindE (it_inc vs' (it_after_insert p (Pos m))) (\<lambda>it'. Inr (s\<lparr>sortedValues := vs', itMedian := it'\<rparr>))
           else Inr (s\<lparr>sortedValues := vs', itMedian := it_after_insert p (Pos m)\<rparr>))"
    using n len
    by (simp add: insertToSorted_def Let_def vs'_def[symmetric] vs_def[symmetric] p_def[symmetric]
         itm)
  have goal: "Inr (s\<lparr>sortedValues := ms_insert v (sortedValues s),
                  itMedian := Pos (length (sortedValues s) div 2)\<rparr>)
       = (Inr (s\<lparr>sortedValues := vs', itMedian := Pos (n div 2)\<rparr>) :: error + wm_state)"
    by (simp add: vs'_def vs_def n_def)
  show ?thesis
  proof (cases "v < vs ! m")
    case True
    with side have pm: "p \<le> m" by simp
    then have it': "it_after_insert p (Pos m) = Pos (Suc m)"
      by (simp add: it_after_insert_def)
    have cur: "deref vs' (Pos (Suc m)) = Inr (vs ! m)"
      using m pm by (simp add: deref_def len nth)
    show ?thesis
    proof (cases "even n")
      case True
      then have par: "Suc n mod 2 \<noteq> 0" by presburger
      from True n have "n div 2 = Suc m" unfolding m_def by presburger
      with par \<open>v < vs ! m\<close> show ?thesis
        unfolding unf goal it' by (simp add: cur len)
    next
      case False
      then have par: "Suc n mod 2 = 0" by presburger
      from False have "n div 2 = m" unfolding m_def by presburger
      with par \<open>v < vs ! m\<close> m show ?thesis
        unfolding unf goal it' by (simp add: cur len it_dec_def)
    qed
  next
    case False
    with side have pm: "m < p" by simp
    then have it': "it_after_insert p (Pos m) = Pos m"
      by (simp add: it_after_insert_def)
    have cur: "deref vs' (Pos m) = Inr (vs ! m)"
      using m pm by (simp add: deref_def len nth)
    show ?thesis
    proof (cases "even n")
      case True
      then have par: "Suc n mod 2 \<noteq> 0" by presburger
      from True n have "n div 2 = Suc m" unfolding m_def by presburger
      with par \<open>\<not> v < vs ! m\<close> m n show ?thesis
        unfolding unf goal it' by (simp add: cur len it_inc_def)
    next
      case False
      then have par: "Suc n mod 2 = 0" by presburger
      from False have "n div 2 = m" unfolding m_def by presburger
      with par \<open>\<not> v < vs ! m\<close> n show ?thesis
        unfolding unf goal it' by (simp add: cur len)
    qed
  qed
qed

lemma eraseFromSorted_even:
  assumes srt: "sorted (sortedValues s)"
    and ev: "even (length (sortedValues s))"
    and it: "itMedian s = Pos ((length (sortedValues s) - 1) div 2)"
    and mem: "v \<in> set (sortedValues s)"
  shows "eraseFromSorted v s =
           Inr (s\<lparr>sortedValues := remove1 v (sortedValues s),
                  itMedian := Pos ((length (sortedValues s) - 2) div 2)\<rparr>)"
proof -
  define vs where "vs = sortedValues s"
  define n where "n = length vs"
  define m where "m = (n - 1) div 2"
  define p where "p = lower_bound v vs"
  from mem have n: "0 < n" unfolding n_def vs_def by (cases "sortedValues s") auto
  from ev have evn: "even n" by (simp add: n_def vs_def)
  with n have n2: "2 \<le> n" by presburger
  then have m: "m < n" unfolding m_def by arith
  from evn n2 have sm: "m = (n - 2) div 2" unfolding m_def by presburger
  have itm: "itMedian s = Pos m" using it by (simp add: m_def n_def vs_def)
  have p: "p < n" "vs ! p = v"
    using lower_bound_first[OF srt mem] by (simp_all add: p_def n_def vs_def)
  have fnd: "ms_find v vs = Pos p" using p by (simp add: ms_find_def p_def n_def)
  have ers: "ms_erase (Pos p) vs = Inr (p, remove1 v vs)"
    using p erase_lower_bound[OF srt mem] by (simp add: ms_erase_def p_def n_def vs_def)
  have cur: "deref vs (Pos m) = Inr (vs ! m)" using m by (simp add: deref_def n_def)
  have side: "(p \<le> m) = (v \<le> vs ! m)"
    unfolding p_def using srt m unfolding vs_def[symmetric] n_def
    by (rule lower_bound_le_iff)
  have unf: "eraseFromSorted v s =
       bindE (if v \<le> vs ! m then it_inc vs (Pos m) else Inr (Pos m)) (\<lambda>it.
           Inr (s\<lparr>sortedValues := remove1 v vs, itMedian := it_after_erase p it\<rparr>))"
    using evn
    by (simp add: eraseFromSorted_def Let_def vs_def[symmetric] n_def[symmetric] itm cur
          fnd ers even_iff_mod_2_eq_zero)
  have goal: "Inr (s\<lparr>sortedValues := remove1 v (sortedValues s),
                  itMedian := Pos ((length (sortedValues s) - 2) div 2)\<rparr>)
     = (Inr (s\<lparr>sortedValues := remove1 v vs, itMedian := Pos m\<rparr>) :: error + wm_state)"
    by (simp add: vs_def n_def sm)
  show ?thesis
  proof (cases "v \<le> vs ! m")
    case True
    with side have "p \<le> m" by simp
    then have "it_after_erase p (Pos (Suc m)) = Pos m"
      by (simp add: it_after_erase_def)
    with True m show ?thesis
      unfolding unf goal by (simp add: it_inc_def n_def)
  next
    case False
    with side have "m < p" by simp
    then have "it_after_erase p (Pos m) = Pos m"
      by (simp add: it_after_erase_def)
    with False show ?thesis
      unfolding unf goal by simp
  qed
qed


section \<open>One call of \<^verbatim>\<open>insert\<close> from an intended state\<close>

lemma insert_value_grow:
  assumes inv: "wm_inv s" and room: "length (window s) < size_t_of_int (windowSize s)"
  shows "insert_value v s =
           Inr (s\<lparr>window := window s @ [v], sortedValues := sort (window s @ [v]),
                  itMedian := Pos (length (window s) div 2)\<rparr>)"
proof -
  let ?s0 = "s\<lparr>window := window s @ [v]\<rparr>"
  have srt: "sorted (sortedValues ?s0)" using inv by (simp add: wm_inv_def)
  have it: "sortedValues ?s0 \<noteq> [] \<longrightarrow> itMedian ?s0 = Pos ((length (sortedValues ?s0) - 1) div 2)"
    using inv by (auto simp: wm_inv_def)
  have "insertToSorted v ?s0 =
          Inr (?s0\<lparr>sortedValues := ms_insert v (sortedValues ?s0),
                    itMedian := Pos (length (sortedValues ?s0) div 2)\<rparr>)"
    by (rule insertToSorted_median[OF srt it])
  moreover have "sortedValues ?s0 = sort (window s)" using inv by (simp add: wm_inv_def)
  ultimately have "insertToSorted v ?s0 =
          Inr (?s0\<lparr>sortedValues := sort (window s @ [v]),
                    itMedian := Pos (length (window s) div 2)\<rparr>)"
    by (simp add: ms_insert_sort)
  then show ?thesis using room by (simp add: insert_value_def)
qed

lemma insert_value_slide:
  assumes inv: "wm_inv s" and full: "length (window s) = size_t_of_int (windowSize s)"
    and odd: "odd (length (window s))"
  shows "insert_value v s =
           Inr (s\<lparr>window := tl (window s @ [v]), sortedValues := sort (tl (window s @ [v])),
                  itMedian := Pos ((length (window s) - 1) div 2)\<rparr>)"
proof -
  let ?s0 = "s\<lparr>window := window s @ [v]\<rparr>"
  let ?w = "window s @ [v]"
  let ?s1 = "s\<lparr>window := ?w, sortedValues := sort ?w, itMedian := Pos (length (window s) div 2)\<rparr>"
  have srt: "sorted (sortedValues ?s0)" using inv by (simp add: wm_inv_def)
  have it: "sortedValues ?s0 \<noteq> [] \<longrightarrow> itMedian ?s0 = Pos ((length (sortedValues ?s0) - 1) div 2)"
    using inv by (auto simp: wm_inv_def)
  have "insertToSorted v ?s0 =
          Inr (?s0\<lparr>sortedValues := ms_insert v (sortedValues ?s0),
                    itMedian := Pos (length (sortedValues ?s0) div 2)\<rparr>)"
    by (rule insertToSorted_median[OF srt it])
  moreover have "sortedValues ?s0 = sort (window s)" using inv by (simp add: wm_inv_def)
  ultimately have ins: "insertToSorted v ?s0 = Inr ?s1"
    by (simp add: ms_insert_sort)
  have fr: "front ?w = Inr (hd ?w)" by (cases "window s") (simp_all add: front_def)
  have e1: "sorted (sortedValues ?s1)" by simp
  have e2: "even (length (sortedValues ?s1))" using odd by simp
  have e3: "itMedian ?s1 = Pos ((length (sortedValues ?s1) - 1) div 2)" by simp
  have "hd ?w \<in> set ?w" by (rule hd_in_set) simp
  then have e4: "hd ?w \<in> set (sortedValues ?s1)" by (simp del: hd_append2 hd_append)
  have "eraseFromSorted (hd ?w) ?s1 =
          Inr (?s1\<lparr>sortedValues := remove1 (hd ?w) (sortedValues ?s1),
                    itMedian := Pos ((length (sortedValues ?s1) - 2) div 2)\<rparr>)"
    by (rule eraseFromSorted_even[OF e1 e2 e3 e4])
  moreover have "remove1 (hd ?w) (sort ?w) = sort (tl ?w)"
    by (rule remove1_hd_sort) simp
  ultimately have ers: "eraseFromSorted (hd ?w) ?s1 =
          Inr (?s1\<lparr>sortedValues := sort (tl ?w),
                    itMedian := Pos ((length (window s) - 1) div 2)\<rparr>)"
    by simp
  show ?thesis by (simp add: insert_value_def ins fr ers full[symmetric])
qed

lemma wm_inv_grow:
  "wm_inv (s\<lparr>window := window s @ [v], sortedValues := sort (window s @ [v]),
                  itMedian := Pos (length (window s) div 2)\<rparr>)"
  by (simp add: wm_inv_def)

lemma wm_inv_slide:
  "window s \<noteq> [] \<Longrightarrow> wm_inv (s\<lparr>window := tl (window s @ [v]), sortedValues := sort (tl (window s @ [v])),
                  itMedian := Pos ((length (window s) - 1) div 2)\<rparr>)"
  by (simp add: wm_inv_def)


section \<open>The window size as a \<^verbatim>\<open>size_t\<close>\<close>

lemma size_t_of_int_sint: "size_t_of_int w = nat (sint w mod 2 ^ 64)"
proof -
  have "unat (scast w :: 64 word) = nat (uint (word_of_int (sint w) :: 64 word))"
    by (simp only: scast_eq unat_eq_nat_uint)
  also have "uint (word_of_int (sint w) :: 64 word) = sint w mod 2 ^ 64"
    unfolding uint_word_of_int by simp
  finally show ?thesis by (simp only: size_t_of_int_def)
qed

lemma size_t_of_int_pos: "0 <s w \<Longrightarrow> size_t_of_int w = nat (sint w) \<and> 0 < size_t_of_int w"
proof -
  assume "0 <s w"
  then have p: "0 < sint w" by (simp add: word_sless_alt)
  have "sint w < 2 ^ 31" using sint_lt[of w] by simp
  then have "sint w < 2 ^ 64" by simp
  with p have "sint w mod 2 ^ 64 = sint w" by simp
  with p show ?thesis by (simp add: size_t_of_int_sint)
qed

lemma size_t_of_int_neg:
  "w <s 0 \<Longrightarrow> size_t_of_int w = nat (sint w + 2 ^ 64) \<and> 2 ^ 64 - 2 ^ 31 \<le> size_t_of_int w"
proof -
  assume "w <s 0"
  then have p: "sint w < 0" by (simp add: word_sless_alt)
  have g: "- (2 ^ 31) \<le> sint w" using sint_ge[of w] by simp
  have "(sint w + 2 ^ 64) mod 2 ^ 64 = sint w + 2 ^ 64"
    using p g by (intro mod_pos_pos_trivial) auto
  then have "sint w mod 2 ^ 64 = sint w + 2 ^ 64" by simp
  then have eq: "size_t_of_int w = nat (sint w + 2 ^ 64)" by (simp only: size_t_of_int_sint)
  have c: "(2::nat) ^ 64 - 2 ^ 31 = nat (2 ^ 64 - 2 ^ 31)" by simp
  have "nat (2 ^ 64 - 2 ^ 31) \<le> nat (sint w + 2 ^ 64)" using g by (intro nat_mono) simp
  then have "2 ^ 64 - 2 ^ 31 \<le> size_t_of_int w" by (simp only: eq c)
  with eq show ?thesis ..
qed

section \<open>Runs that keep the intended state\<close>

text \<open>
  While the window is filling, and at every later insertion when the window size is odd,
  the multiset is the sorted window and the iterator denotes the lower median. With an odd
  window size every removal happens at an even size, where \<open>eraseFromSorted_even\<close> applies.
\<close>

lemma insert_all_inv:
  assumes "wm_inv s" and "length (window s) \<le> size_t_of_int (windowSize s)"
    and "odd (size_t_of_int (windowSize s)) \<or>
         length (window s) + length vals \<le> size_t_of_int (windowSize s)"
  shows "\<exists>s'. insert_all vals s = Inr s' \<and> wm_inv s' \<and> windowSize s' = windowSize s \<and>
           window s' = drop (length (window s) + length vals - size_t_of_int (windowSize s))
                            (window s @ vals)"
  using assms
proof (induction vals arbitrary: s)
  case Nil
  then show ?case by simp
next
  case (Cons v vals)
  define W where "W = size_t_of_int (windowSize s)"
  define w where "w = window s"
  show ?case
  proof (cases "length w < W")
    case True
    define s1 where "s1 = s\<lparr>window := window s @ [v], sortedValues := sort (window s @ [v]),
                  itMedian := Pos (length (window s) div 2)\<rparr>"
    have step: "insert_value v s = Inr s1"
      unfolding s1_def using Cons.prems(1) True[unfolded W_def w_def] by (rule insert_value_grow)
    have inv1: "wm_inv s1" unfolding s1_def by (rule wm_inv_grow)
    have w1: "window s1 = w @ [v]" "windowSize s1 = windowSize s" by (simp_all add: s1_def w_def)
    have "\<exists>s'. insert_all vals s1 = Inr s' \<and> wm_inv s' \<and> windowSize s' = windowSize s1 \<and>
           window s' = drop (length (window s1) + length vals - size_t_of_int (windowSize s1))
                            (window s1 @ vals)"
      using True Cons.prems(3) by (intro Cons.IH[OF inv1]) (auto simp: w1 W_def w_def)
    then obtain s' where s': "insert_all vals s1 = Inr s'" "wm_inv s'" "windowSize s' = windowSize s"
       "window s' = drop (Suc (length w) + length vals - W) ((w @ [v]) @ vals)"
      by (auto simp: w1 W_def)
    have "insert_all (v # vals) s = Inr s'" by (simp add: step s')
    moreover have "window s' = drop (length (window s) + length (v # vals) - size_t_of_int (windowSize s))
                            (window s @ v # vals)"
      by (simp add: s' w_def W_def)
    ultimately show ?thesis using s' by blast
  next
    case False
    with Cons.prems have full: "length (window s) = size_t_of_int (windowSize s)"
      and odd: "odd (length (window s))" by (auto simp: W_def w_def)
    then have ne: "window s \<noteq> []" by (cases "window s") auto
    then obtain a w' where aw: "w = a # w'" unfolding w_def by (cases "window s") auto
    define s1 where "s1 = s\<lparr>window := tl (window s @ [v]), sortedValues := sort (tl (window s @ [v])),
                  itMedian := Pos ((length (window s) - 1) div 2)\<rparr>"
    have step: "insert_value v s = Inr s1"
      unfolding s1_def using Cons.prems(1) full odd by (rule insert_value_slide)
    have inv1: "wm_inv s1" unfolding s1_def using ne by (rule wm_inv_slide)
    have w1: "window s1 = w' @ [v]" "windowSize s1 = windowSize s"
      using aw by (simp_all add: s1_def w_def)
    have lw: "length w = W" "W = Suc (length w')" using full aw by (simp_all add: W_def w_def)
    have o: "odd W" using odd lw by (simp add: w_def)
    have "\<exists>s'. insert_all vals s1 = Inr s' \<and> wm_inv s' \<and> windowSize s' = windowSize s1 \<and>
           window s' = drop (length (window s1) + length vals - size_t_of_int (windowSize s1))
                            (window s1 @ vals)"
      using o lw by (intro Cons.IH[OF inv1]) (auto simp: w1 W_def[symmetric])
    then obtain s' where s': "insert_all vals s1 = Inr s'" "wm_inv s'" "windowSize s' = windowSize s"
       "window s' = drop (length (w' @ [v]) + length vals - W) ((w' @ [v]) @ vals)"
      by (auto simp: w1 W_def)
    have "insert_all (v # vals) s = Inr s'" by (simp add: step s')
    moreover have "window s' = drop (length w + length (v # vals) - W) (w @ v # vals)"
      unfolding s'(4) using lw aw by simp
    ultimately show ?thesis using s' unfolding w_def W_def by blast
  qed
qed

lemma wm_inv_init:
  "wm_inv \<lparr>windowSize = ws, window = [], sortedValues = [], itMedian = Singular\<rparr>"
  by (simp add: wm_inv_def)

lemma run_inv:
  assumes "odd (size_t_of_int ws) \<or> length vals \<le> size_t_of_int ws"
  shows "\<exists>s. run ws vals = Inr s \<and> wm_inv s \<and> windowSize s = ws \<and>
           window s = drop (length vals - size_t_of_int ws) vals"
proof -
  let ?s0 = "\<lparr>windowSize = ws, window = [], sortedValues = [], itMedian = Singular\<rparr>"
  have "\<exists>s'. insert_all vals ?s0 = Inr s' \<and> wm_inv s' \<and> windowSize s' = windowSize ?s0 \<and>
           window s' = drop (length (window ?s0) + length vals - size_t_of_int (windowSize ?s0))
                            (window ?s0 @ vals)"
    using assms by (intro insert_all_inv[OF wm_inv_init]) simp_all
  then show ?thesis by (simp add: run_def WindowedMedian_def)
qed


section \<open>Runs on streams without repeated values\<close>

text \<open>
  A removal at an odd size goes wrong only when the value that leaves has a duplicate in
  front of the iterator. Without repeated values the first node of the equal range is the
  only one, and the iterator keeps to the lower median for every positive window size.
\<close>

lemma eraseFromSorted_odd_distinct:
  assumes srt: "sorted (sortedValues s)"
    and dst: "distinct (sortedValues s)"
    and od: "odd (length (sortedValues s))"
    and n3: "3 \<le> length (sortedValues s)"
    and it: "itMedian s = Pos ((length (sortedValues s) - 1) div 2)"
    and mem: "v \<in> set (sortedValues s)"
  shows "eraseFromSorted v s =
           Inr (s\<lparr>sortedValues := remove1 v (sortedValues s),
                  itMedian := Pos ((length (sortedValues s) - 2) div 2)\<rparr>)"
proof -
  define vs where "vs = sortedValues s"
  define n where "n = length vs"
  define m where "m = (n - 1) div 2"
  define p where "p = lower_bound v vs"
  from od have odn: "odd n" by (simp add: n_def vs_def)
  from n3 have n3': "3 \<le> n" by (simp add: n_def vs_def)
  then have m: "m < n" "0 < m" unfolding m_def by arith+
  from odn n3' have sm: "(n - 2) div 2 = m - 1" unfolding m_def by presburger
  have par: "n mod 2 \<noteq> 0" using odn by presburger
  have itm: "itMedian s = Pos m" using it by (simp add: m_def n_def vs_def)
  have p: "p < n" "vs ! p = v"
    using lower_bound_first[OF srt mem] by (simp_all add: p_def n_def vs_def)
  have fnd: "ms_find v vs = Pos p" using p by (simp add: ms_find_def p_def n_def)
  have ers: "ms_erase (Pos p) vs = Inr (p, remove1 v vs)"
    using p erase_lower_bound[OF srt mem] by (simp add: ms_erase_def p_def n_def vs_def)
  have cur: "deref vs (Pos m) = Inr (vs ! m)" using m by (simp add: deref_def n_def)
  have side: "(p \<le> m) = (v \<le> vs ! m)"
    unfolding p_def using srt m(1) unfolding vs_def[symmetric] n_def
    by (rule lower_bound_le_iff)
  have eqm: "(p = m) = (v = vs ! m)"
    using dst p m(1) by (auto simp: vs_def[symmetric] n_def nth_eq_iff_index_eq)
  have unf: "eraseFromSorted v s =
       bindE (if vs ! m \<le> v then it_dec vs (Pos m) else Inr (Pos m)) (\<lambda>it.
           Inr (s\<lparr>sortedValues := remove1 v vs, itMedian := it_after_erase p it\<rparr>))"
    using par
    by (simp add: eraseFromSorted_def Let_def vs_def[symmetric] n_def[symmetric] itm cur fnd ers)
  have goal: "Inr (s\<lparr>sortedValues := remove1 v (sortedValues s),
                  itMedian := Pos ((length (sortedValues s) - 2) div 2)\<rparr>)
     = (Inr (s\<lparr>sortedValues := remove1 v vs, itMedian := Pos (m - 1)\<rparr>) :: error + wm_state)"
    by (simp add: vs_def[symmetric] n_def[symmetric] sm)
  show ?thesis
  proof (cases "vs ! m \<le> v")
    case True
    with side eqm have "m \<le> p" by auto
    with m(2) have "m - 1 \<noteq> p" "\<not> p < m - 1" by arith+
    then have "it_after_erase p (Pos (m - 1)) = Pos (m - 1)"
      by (simp add: it_after_erase_def)
    with True m show ?thesis
      unfolding unf goal by (simp add: it_dec_def n_def)
  next
    case False
    with side eqm have "p < m" by auto
    then have "it_after_erase p (Pos m) = Pos (m - 1)"
      by (simp add: it_after_erase_def)
    with False show ?thesis
      unfolding unf goal by simp
  qed
qed

lemma insert_value_slide_distinct:
  assumes inv: "wm_inv s" and full: "length (window s) = size_t_of_int (windowSize s)"
    and two: "2 \<le> length (window s)" and ev: "even (length (window s))"
    and dst: "distinct (window s @ [v])"
  shows "insert_value v s =
           Inr (s\<lparr>window := tl (window s @ [v]), sortedValues := sort (tl (window s @ [v])),
                  itMedian := Pos ((length (window s) - 1) div 2)\<rparr>)"
proof -
  let ?s0 = "s\<lparr>window := window s @ [v]\<rparr>"
  let ?w = "window s @ [v]"
  let ?s1 = "s\<lparr>window := ?w, sortedValues := sort ?w, itMedian := Pos (length (window s) div 2)\<rparr>"
  have srt: "sorted (sortedValues ?s0)" using inv by (simp add: wm_inv_def)
  have it: "sortedValues ?s0 \<noteq> [] \<longrightarrow> itMedian ?s0 = Pos ((length (sortedValues ?s0) - 1) div 2)"
    using inv by (auto simp: wm_inv_def)
  have "insertToSorted v ?s0 =
          Inr (?s0\<lparr>sortedValues := ms_insert v (sortedValues ?s0),
                    itMedian := Pos (length (sortedValues ?s0) div 2)\<rparr>)"
    by (rule insertToSorted_median[OF srt it])
  moreover have "sortedValues ?s0 = sort (window s)" using inv by (simp add: wm_inv_def)
  ultimately have ins: "insertToSorted v ?s0 = Inr ?s1"
    by (simp add: ms_insert_sort)
  have fr: "front ?w = Inr (hd ?w)" by (cases "window s") (simp_all add: front_def)
  have e1: "sorted (sortedValues ?s1)" by simp
  have e2: "distinct (sortedValues ?s1)" using dst by (simp del: distinct_append)
  have e3: "odd (length (sortedValues ?s1))" using ev by simp
  have e4: "3 \<le> length (sortedValues ?s1)" using two by simp
  have e5: "itMedian ?s1 = Pos ((length (sortedValues ?s1) - 1) div 2)" by simp
  have "hd ?w \<in> set ?w" by (rule hd_in_set) simp
  then have e6: "hd ?w \<in> set (sortedValues ?s1)" by (simp del: hd_append2 hd_append)
  have "eraseFromSorted (hd ?w) ?s1 =
          Inr (?s1\<lparr>sortedValues := remove1 (hd ?w) (sortedValues ?s1),
                    itMedian := Pos ((length (sortedValues ?s1) - 2) div 2)\<rparr>)"
    by (rule eraseFromSorted_odd_distinct[OF e1 e2 e3 e4 e5 e6])
  moreover have "remove1 (hd ?w) (sort ?w) = sort (tl ?w)"
    by (rule remove1_hd_sort) simp
  ultimately have ers: "eraseFromSorted (hd ?w) ?s1 =
          Inr (?s1\<lparr>sortedValues := sort (tl ?w),
                    itMedian := Pos ((length (window s) - 1) div 2)\<rparr>)"
    by simp
  show ?thesis by (simp add: insert_value_def ins fr ers full[symmetric])
qed

lemma insert_all_inv_distinct:
  assumes "wm_inv s" and "length (window s) \<le> size_t_of_int (windowSize s)"
    and "0 < size_t_of_int (windowSize s)" and "distinct (window s @ vals)"
  shows "\<exists>s'. insert_all vals s = Inr s' \<and> wm_inv s' \<and> windowSize s' = windowSize s \<and>
           window s' = drop (length (window s) + length vals - size_t_of_int (windowSize s))
                            (window s @ vals)"
  using assms
proof (induction vals arbitrary: s)
  case Nil
  then show ?case by simp
next
  case (Cons v vals)
  define W where "W = size_t_of_int (windowSize s)"
  define w where "w = window s"
  have d1: "distinct (w @ [v])" using Cons.prems(4) by (simp add: w_def)
  show ?case
  proof (cases "length w < W")
    case True
    define s1 where "s1 = s\<lparr>window := window s @ [v], sortedValues := sort (window s @ [v]),
                  itMedian := Pos (length (window s) div 2)\<rparr>"
    have step: "insert_value v s = Inr s1"
      unfolding s1_def using Cons.prems(1) True[unfolded W_def w_def] by (rule insert_value_grow)
    have inv1: "wm_inv s1" unfolding s1_def by (rule wm_inv_grow)
    have w1: "window s1 = w @ [v]" "windowSize s1 = windowSize s" by (simp_all add: s1_def w_def)
    have "\<exists>s'. insert_all vals s1 = Inr s' \<and> wm_inv s' \<and> windowSize s' = windowSize s1 \<and>
           window s' = drop (length (window s1) + length vals - size_t_of_int (windowSize s1))
                            (window s1 @ vals)"
      using True Cons.prems(3,4) by (intro Cons.IH[OF inv1]) (auto simp: w1 W_def w_def)
    then obtain s' where s': "insert_all vals s1 = Inr s'" "wm_inv s'" "windowSize s' = windowSize s"
       "window s' = drop (Suc (length w) + length vals - W) ((w @ [v]) @ vals)"
      by (auto simp: w1 W_def)
    have "insert_all (v # vals) s = Inr s'" by (simp add: step s')
    moreover have "window s' = drop (length (window s) + length (v # vals) - size_t_of_int (windowSize s))
                            (window s @ v # vals)"
      by (simp add: s' w_def W_def)
    ultimately show ?thesis using s' by blast
  next
    case False
    with Cons.prems have full: "length (window s) = size_t_of_int (windowSize s)"
      by (auto simp: W_def w_def)
    with Cons.prems(3) have ne: "window s \<noteq> []" by (cases "window s") auto
    then obtain a w' where aw: "w = a # w'" unfolding w_def by (cases "window s") auto
    define s1 where "s1 = s\<lparr>window := tl (window s @ [v]), sortedValues := sort (tl (window s @ [v])),
                  itMedian := Pos ((length (window s) - 1) div 2)\<rparr>"
    have step: "insert_value v s = Inr s1"
    proof (cases "odd (length (window s))")
      case True
      show ?thesis unfolding s1_def using Cons.prems(1) full True by (rule insert_value_slide)
    next
      case False
      then have ev: "even (length (window s))" by simp
      with ne have two: "2 \<le> length (window s)" by (cases "window s") (auto simp: Suc_le_eq)
      show ?thesis unfolding s1_def
        using Cons.prems(1) full two ev d1[unfolded w_def] by (rule insert_value_slide_distinct)
    qed
    have inv1: "wm_inv s1" unfolding s1_def using ne by (rule wm_inv_slide)
    have w1: "window s1 = w' @ [v]" "windowSize s1 = windowSize s"
      using aw by (simp_all add: s1_def w_def)
    have lw: "length w = W" "W = Suc (length w')" using full aw by (simp_all add: W_def w_def)
    have d2: "distinct ((w' @ [v]) @ vals)" using Cons.prems(4) aw by (simp add: w_def[symmetric])
    have "\<exists>s'. insert_all vals s1 = Inr s' \<and> wm_inv s' \<and> windowSize s' = windowSize s1 \<and>
           window s' = drop (length (window s1) + length vals - size_t_of_int (windowSize s1))
                            (window s1 @ vals)"
      using lw d2 by (intro Cons.IH[OF inv1]) (simp_all add: w1 W_def[symmetric])
    then obtain s' where s': "insert_all vals s1 = Inr s'" "wm_inv s'" "windowSize s' = windowSize s"
       "window s' = drop (length (w' @ [v]) + length vals - W) ((w' @ [v]) @ vals)"
      by (auto simp: w1 W_def)
    have "insert_all (v # vals) s = Inr s'" by (simp add: step s')
    moreover have "window s' = drop (length w + length (v # vals) - W) (w @ v # vals)"
      unfolding s'(4) using lw aw by simp
    ultimately show ?thesis using s' unfolding w_def W_def by blast
  qed
qed

lemma run_inv_distinct:
  assumes "0 < size_t_of_int ws" and "distinct vals"
  shows "\<exists>s. run ws vals = Inr s \<and> wm_inv s \<and> windowSize s = ws \<and>
           window s = drop (length vals - size_t_of_int ws) vals"
proof -
  let ?s0 = "\<lparr>windowSize = ws, window = [], sortedValues = [], itMedian = Singular\<rparr>"
  have "\<exists>s'. insert_all vals ?s0 = Inr s' \<and> wm_inv s' \<and> windowSize s' = windowSize ?s0 \<and>
           window s' = drop (length (window ?s0) + length vals - size_t_of_int (windowSize ?s0))
                            (window ?s0 @ vals)"
    using assms by (intro insert_all_inv_distinct[OF wm_inv_init]) simp_all
  then show ?thesis by (simp add: run_def WindowedMedian_def)
qed

section \<open>Rounding to single precision\<close>

text \<open>
  A number \<open>m \<sqdot> 2\<^sup>k\<close> with \<open>\<bar>m\<bar> \<le> 2\<^sup>2\<^sup>4\<close> is a float and rounding leaves it alone; the
  float of an int has that shape, so halving it and adding two such halves of the same
  float are exact.
\<close>

lemma round_half_even_of_int [simp]: "round_half_even (of_int j) = j"
  by (simp add: round_half_even_def)

lemma f32_exponent_scaled:
  assumes "0 < a" and "- 149 \<le> k"
  shows "f32_exponent (of_int a * 2 powi k) = bitlen a + k - 1"
proof -
  have "\<bar>rat_of_int a * 2 powi k\<bar> * 2 ^ 149 = of_int a * (2 powi k * 2 powi 149)"
    using assms by (simp add: abs_mult)
  also have "2 powi k * 2 powi 149 = (2::rat) powi (k + 149)"
    by (simp add: power_int_add)
  also have "\<dots> = 2 ^ nat (k + 149)" using assms by (simp add: power_int_def)
  finally have "\<bar>rat_of_int a * 2 powi k\<bar> * 2 ^ 149 = of_int (a * 2 ^ nat (k + 149))"
    by simp
  then have "\<lfloor>\<bar>rat_of_int a * 2 powi k\<bar> * 2 ^ 149\<rfloor> = a * 2 ^ nat (k + 149)"
    by (simp only: floor_of_int)
  then show ?thesis using assms by (simp add: f32_exponent_def)
qed

lemma f32_round_exact_pos:
  assumes a: "0 < a" "a \<le> 2 ^ 24" and k: "- 149 \<le> k"
  shows "f32_round (of_int a * 2 powi k) = of_int a * 2 powi k"
proof -
  define b where "b = bitlen a"
  define x :: rat where "x = of_int a * 2 powi k"
  have xpos: "0 < x" using a by (simp add: x_def)
  have e: "f32_exponent x = b + k - 1" unfolding x_def b_def using a(1) k by (rule f32_exponent_scaled)
  have "a < 2 ^ nat 25" using a(2) by simp
  then have b25: "b \<le> 25" unfolding b_def by (simp add: bitlen_le_iff_power)
  define u :: rat where "u = 2 powi (b + k - 24)"
  have upos: "0 < u" by (simp add: u_def)
  have q: "x / u = of_int a * 2 powi (24 - b)"
    by (simp add: x_def u_def power_int_diff[symmetric] field_simps flip: power_int_add power_int_diff)
  have "\<exists>j. x / u = of_int j"
  proof (cases "b \<le> 24")
    case True
    then have "(2::rat) powi (24 - b) = 2 ^ nat (24 - b)" by (simp add: power_int_def)
    then have "x / u = of_int (a * 2 ^ nat (24 - b))" by (simp add: q)
    then show ?thesis ..
  next
    case False
    with b25 have b: "b = 25" by simp
    have "2 ^ nat (b - 1) \<le> a" using bitlen_bounds[OF a(1)] by (simp add: b_def)
    with b a(2) have "a = 2 ^ 24" by simp
    then have "x / u = of_int (2 ^ 23)" by (simp add: q b power_int_def)
    then show ?thesis ..
  qed
  then obtain j where j: "x / u = of_int j" ..
  have "f32_round x = sgn x * of_int (round_half_even (\<bar>x\<bar> / u)) * u"
    using xpos by (simp add: f32_round_def Let_def e u_def)
  also have "\<dots> = of_int j * u" using xpos by (simp add: j)
  also have "\<dots> = x" using upos j by (simp add: field_simps)
  finally show ?thesis by (simp add: x_def)
qed


lemma f32_round_minus: "f32_round (- x) = - f32_round x"
  by (simp add: f32_round_def f32_exponent_def Let_def)

lemma f32_round_exact:
  assumes m: "\<bar>m\<bar> \<le> 2 ^ 24" and k: "- 149 \<le> k"
  shows "f32_round (of_int m * 2 powi k) = of_int m * 2 powi k"
proof -
  consider "m = 0" | "0 < m" | "m < 0" by linarith
  then show ?thesis
  proof cases
    case 1
    then show ?thesis by (simp add: f32_round_def)
  next
    case 2
    with m have "m \<le> 2 ^ 24" by simp
    with 2 k show ?thesis by (intro f32_round_exact_pos)
  next
    case 3
    with m have "0 < - m" "- m \<le> 2 ^ 24" by simp_all
    then have "f32_round (of_int (- m) * 2 powi k) = of_int (- m) * 2 powi k"
      using k by (intro f32_round_exact_pos)
    then have "f32_round (- (of_int m * 2 powi k)) = - (of_int m * 2 powi k)" by simp
    then show ?thesis by (simp only: f32_round_minus neg_equal_iff_equal)
  qed
qed

lemma f32_of_int_exact: "\<bar>i\<bar> \<le> 2 ^ 24 \<Longrightarrow> f32_of_int i = of_int i"
  using f32_round_exact[of i 0] by (simp add: f32_of_int_def)

lemma round_half_even_bounds: "\<lfloor>q\<rfloor> \<le> round_half_even q \<and> round_half_even q \<le> \<lfloor>q\<rfloor> + 1"
  by (simp add: round_half_even_def Let_def)

lemma f32_of_int_shape_pos:
  assumes a: "0 < a"
  shows "\<exists>m k. f32_of_int a = of_int m * 2 powi k \<and> \<bar>m\<bar> \<le> 2 ^ 24 \<and> - 148 \<le> k"
proof -
  define e where "e = bitlen a - 1"
  define u :: rat where "u = 2 powi (e - 23)"
  define q :: rat where "q = of_int a / u"
  have "f32_exponent (of_int a * 2 powi 0) = bitlen a + 0 - 1"
    using a by (intro f32_exponent_scaled) simp_all
  then have ex: "f32_exponent (of_int a) = e" by (simp add: e_def)
  have e0: "0 \<le> e" using a bitlen_eq_zero_iff[of a] bitlen_nonneg[of a] unfolding e_def by linarith
  have upos: "0 < u" by (simp add: u_def)
  have "a < 2 ^ nat (bitlen a)" using bitlen_bounds[OF a] by simp
  then have "rat_of_int a < of_int (2 ^ nat (e + 1))" unfolding e_def by (simp only: of_int_less_iff) simp
  also have "\<dots> = 2 powi (e + 1)" using e0 by (simp add: power_int_def)
  also have "\<dots> = 2 powi (24 + (e - 23))" by (simp add: add.commute)
  also have "\<dots> = 2 powi 24 * 2 powi (e - 23)" by (rule power_int_add) simp
  also have "\<dots> = 2 ^ 24 * u" unfolding u_def by simp
  finally have "q < 2 ^ 24" using upos by (simp add: q_def field_simps)
  then have "\<lfloor>q\<rfloor> < 2 ^ 24" by (simp add: floor_less_iff)
  moreover have "0 \<le> q" using a upos by (simp add: q_def)
  then have "0 \<le> \<lfloor>q\<rfloor>" by simp
  ultimately have r: "\<bar>round_half_even q\<bar> \<le> 2 ^ 24"
    using round_half_even_bounds[of q] by linarith
  have "f32_of_int a = of_int (round_half_even q) * 2 powi (e - 23)"
    using a by (simp add: f32_of_int_def f32_round_def Let_def ex u_def q_def)
  with r e0 show ?thesis by (intro exI[of _ "round_half_even q"] exI[of _ "e - 23"]) simp
qed

lemma f32_of_int_minus: "f32_of_int (- i) = - f32_of_int i"
  by (simp add: f32_of_int_def f32_round_minus)

lemma f32_of_int_shape:
  "\<exists>m k. f32_of_int i = of_int m * 2 powi k \<and> \<bar>m\<bar> \<le> 2 ^ 24 \<and> - 148 \<le> k"
proof -
  consider "i = 0" | "0 < i" | "i < 0" by linarith
  then show ?thesis
  proof cases
    case 1
    have "f32_of_int 0 = of_int 0 * 2 powi 0" by (simp add: f32_of_int_def f32_round_def)
    with 1 show ?thesis by (intro exI[of _ 0] exI[of _ 0]) simp
  next
    case 2
    then show ?thesis by (rule f32_of_int_shape_pos)
  next
    case 3
    then have "0 < - i" by simp
    from f32_of_int_shape_pos[OF this] obtain m k where
      "f32_of_int (- i) = of_int m * 2 powi k" "\<bar>m\<bar> \<le> 2 ^ 24" "- 148 \<le> k" by blast
    then have "f32_of_int i = of_int (- m) * 2 powi k \<and> \<bar>- m\<bar> \<le> 2 ^ 24 \<and> - 148 \<le> k"
      by (simp add: f32_of_int_minus)
    then show ?thesis by blast
  qed
qed

lemma f32_half_of_int: "f32_mul f32_half (f32_of_int i) = f32_of_int i / 2"
proof -
  obtain m k where mk: "f32_of_int i = of_int m * 2 powi k" "\<bar>m\<bar> \<le> 2 ^ 24" "- 148 \<le> k"
    using f32_of_int_shape by blast
  have "f32_half * f32_of_int i = of_int m * 2 powi (k - 1)"
    by (simp add: mk f32_half_def power_int_diff)
  moreover have "f32_round (of_int m * 2 powi (k - 1)) = of_int m * 2 powi (k - 1)"
    using mk by (intro f32_round_exact) simp_all
  ultimately show ?thesis by (simp add: f32_mul_def f32_half_def)
qed

lemma f32_round_of_int_idem: "f32_round (f32_of_int i) = f32_of_int i"
proof -
  obtain m k where mk: "f32_of_int i = of_int m * 2 powi k" "\<bar>m\<bar> \<le> 2 ^ 24" "- 148 \<le> k"
    using f32_of_int_shape by blast
  then show ?thesis using f32_round_exact[of m k] by simp
qed

lemma f32_mean_same:
  "f32_add (f32_mul f32_half (f32_of_int i)) (f32_mul f32_half (f32_of_int i)) = f32_of_int i"
  by (simp add: f32_half_of_int f32_add_def f32_round_of_int_idem)

lemma f32_mean_exact:
  assumes "\<bar>a\<bar> \<le> 2 ^ 23" and "\<bar>b\<bar> \<le> 2 ^ 23"
  shows "f32_add (f32_mul f32_half (f32_of_int a)) (f32_mul f32_half (f32_of_int b)) =
           (of_int a + of_int b) / 2"
proof -
  have ea: "f32_of_int a = of_int a" and eb: "f32_of_int b = of_int b"
    using assms by (simp_all add: f32_of_int_exact)
  have "\<bar>a + b\<bar> \<le> 2 ^ 24" using assms by simp
  then have "f32_round (of_int (a + b) * 2 powi (- 1)) = of_int (a + b) * 2 powi (- 1)"
    by (intro f32_round_exact) simp_all
  then have rr: "f32_round ((of_int a + of_int b) / 2) = (of_int a + of_int b) / 2"
    by (simp add: power_int_minus field_simps)
  have ha: "f32_mul f32_half (f32_of_int a) = of_int a / 2"
    using f32_half_of_int[of a] by (simp only: ea)
  have hb: "f32_mul f32_half (f32_of_int b) = of_int b / 2"
    using f32_half_of_int[of b] by (simp only: eb)
  show ?thesis unfolding f32_add_def ha hb using rr by (simp add: add_divide_distrib)
qed

lemma f32_add_commute: "f32_add x y = f32_add y x"
  by (simp add: f32_add_def add.commute)


text \<open>\<open>2\<^sup>2\<^sup>4 + 1\<close> is the first int that is not a float; it lies halfway and rounds to even.\<close>

lemma f32_of_int_16777217: "f32_of_int 16777217 = 16777216"
  by code_simp

section \<open>The median of an intended state\<close>

lemma getMedian_odd:
  assumes "wm_inv s" and "odd (length (window s))"
  shows "getMedian s = Inr (f32_of_int (sort (window s) ! (length (window s) div 2)))"
proof -
  define n where "n = length (window s)"
  from assms(2) have ne: "window s \<noteq> []" by (cases "window s") auto
  from assms(2) have "0 < n" "(n - 1) div 2 = n div 2" unfolding n_def by presburger+
  then have "(n - 1) div 2 < n" by simp
  with assms ne \<open>(n - 1) div 2 = n div 2\<close> show ?thesis
    by (simp add: Let_def getMedian_def wm_inv_def deref_def n_def[symmetric] odd_iff_mod_2_eq_one)
qed

lemma getMedian_even:
  assumes "wm_inv s" and "window s \<noteq> []" and "even (length (window s))"
  shows "getMedian s =
     Inr (f32_add (f32_mul f32_half (f32_of_int (sort (window s) ! (length (window s) div 2 - 1))))
                  (f32_mul f32_half (f32_of_int (sort (window s) ! (length (window s) div 2)))))"
proof -
  define n where "n = length (window s)"
  from assms(2,3) have n: "2 \<le> n" unfolding n_def by (cases "window s") (auto simp: Suc_le_eq)
  with assms(3) have i: "(n - Suc 0) div 2 = n div 2 - Suc 0" "Suc (n div 2 - Suc 0) = n div 2"
    "n div 2 - Suc 0 < n" "n div 2 < n" unfolding n_def by presburger+
  from assms show ?thesis
    by (simp add: Let_def getMedian_def wm_inv_def deref_def it_inc_def n_def[symmetric]
          even_iff_mod_2_eq_zero i)
qed

lemma getMedianNaive_odd:
  assumes "odd (length (window s))"
  shows "getMedianNaive s = Inr (f32_of_int (sort (window s) ! (length (window s) div 2)))"
proof -
  define n where "n = length (window s)"
  from assms have "n div 2 < n" unfolding n_def by presburger
  with assms show ?thesis
    by (simp add: Let_def getMedianNaive_def list_at_def n_def[symmetric] odd_iff_mod_2_eq_one)
qed

lemma getMedianNaive_even:
  assumes "window s \<noteq> []" and "even (length (window s))"
  shows "getMedianNaive s =
     Inr (f32_add (f32_mul f32_half (f32_of_int (sort (window s) ! (length (window s) div 2))))
                  (f32_mul f32_half (f32_of_int (sort (window s) ! (length (window s) div 2 - 1)))))"
proof -
  define n where "n = length (window s)"
  from assms have n: "2 \<le> n" unfolding n_def by (cases "window s") (auto simp: Suc_le_eq)
  with assms(2) have i: "n div 2 - Suc 0 < n" "n div 2 < n" unfolding n_def by presburger+
  from assms show ?thesis
    by (simp add: Let_def getMedianNaive_def list_at_def n_def[symmetric] even_iff_mod_2_eq_zero i)
qed

lemma median_agrees:
  assumes "wm_inv s" and "window s \<noteq> []"
  shows "getMedian s = getMedianNaive s"
proof (cases "even (length (window s))")
  case True
  show ?thesis
    unfolding getMedian_even[OF assms True] getMedianNaive_even[OF assms(2) True]
    by (rule arg_cong[where f = Inr], rule f32_add_commute)
next
  case False
  show ?thesis
    unfolding getMedian_odd[OF assms(1) False] getMedianNaive_odd[OF False] ..
qed


section \<open>Construction\<close>

text \<open>
  C5, as the code has it: the constructor has no check and no failing path. For every
  argument, zero and negative ones included, it succeeds and yields the empty structure
  that stores the argument.
\<close>

theorem construct_never_fails:
  "WindowedMedian ws =
     Inr \<lparr>windowSize = ws, window = [], sortedValues = [], itMedian = Singular\<rparr>"
  by (simp add: WindowedMedian_def)

text \<open>C5 as stated fails at window size 0: the construction does not report InvalidArgument.\<close>

theorem construct_zero_accepted:
  "WindowedMedian 0 \<noteq> Inl InvalidArgument \<and>
   WindowedMedian 0 = Inr \<lparr>windowSize = 0, window = [], sortedValues = [], itMedian = Singular\<rparr>"
  by (simp add: WindowedMedian_def)

section \<open>Evaluating the class on concrete streams\<close>

lemmas wm_eval = run_def WindowedMedian_def insert_value_def insertToSorted_def eraseFromSorted_def
  ms_insert_def upper_bound_def lower_bound_def ms_find_def ms_erase_def it_after_insert_def
  it_after_erase_def deref_def it_inc_def it_dec_def front_def size_t_of_int_def Let_def

section \<open>Sizes and contents of the two containers\<close>

text \<open>
  The container statements of \<^verbatim>\<open>insert\<close> keep the multiset equal to the sorted window and
  the window equal to the last values of the stream, for every stream; they never fail.
  Whenever the whole \<^verbatim>\<open>insert\<close> returns, its window and multiset are the ones these
  statements compute.
\<close>

lemma insertToSorted_result:
  assumes "insertToSorted v s = Inr s'"
  shows "sortedValues s' = ms_insert v (sortedValues s) \<and> window s' = window s \<and>
         windowSize s' = windowSize s"
  using assms
  by (auto simp: insertToSorted_def Let_def bindE_def split: if_splits sum.splits)

lemma insert_containers_sorted:
  assumes len: "length w \<le> size_t_of_int ws"
  shows "insert_containers ws v (w, sort w) =
           Inr (drop (Suc (length w) - size_t_of_int ws) (w @ [v]),
                sort (drop (Suc (length w) - size_t_of_int ws) (w @ [v])))"
proof (cases "length w < size_t_of_int ws")
  case True
  then show ?thesis by (simp add: insert_containers_def ms_insert_sort Let_def)
next
  case False
  with len have full: "size_t_of_int ws = length w" by simp
  let ?w = "w @ [v]"
  have srt: "sorted (sort ?w)" by simp
  have "hd ?w \<in> set ?w" by (rule hd_in_set) simp
  then have mem: "hd ?w \<in> set (sort ?w)" by (simp del: hd_append2 hd_append)
  have p: "lower_bound (hd ?w) (sort ?w) < length (sort ?w)"
    "sort ?w ! lower_bound (hd ?w) (sort ?w) = hd ?w"
    using lower_bound_first[OF srt mem] by simp_all
  have fnd: "ms_find (hd ?w) (sort ?w) = Pos (lower_bound (hd ?w) (sort ?w))"
    using p by (simp add: ms_find_def)
  have "take (lower_bound (hd ?w) (sort ?w)) (sort ?w) @
          drop (Suc (lower_bound (hd ?w) (sort ?w))) (sort ?w) = remove1 (hd ?w) (sort ?w)"
    by (rule erase_lower_bound[OF srt mem])
  also have "\<dots> = sort (tl ?w)" by (rule remove1_hd_sort) simp
  finally have ers: "ms_erase (Pos (lower_bound (hd ?w) (sort ?w))) (sort ?w) =
      Inr (lower_bound (hd ?w) (sort ?w), sort (tl ?w))"
    using p(1) by (simp add: ms_erase_def)
  have fr: "front ?w = Inr (hd ?w)" by (cases w) (simp_all add: front_def)
  have "insert_containers ws v (w, sort w) = Inr (tl ?w, sort (tl ?w))"
    by (simp add: insert_containers_def ms_insert_sort full fr fnd ers Let_def)
  moreover have "drop (Suc (length w) - size_t_of_int ws) ?w = tl ?w"
    by (cases w) (simp_all add: full)
  ultimately show ?thesis by (simp only:)
qed

lemma insert_all_containers_sorted:
  assumes "length w \<le> size_t_of_int ws"
  shows "insert_all_containers ws vals (w, sort w) =
           Inr (drop (length w + length vals - size_t_of_int ws) (w @ vals),
                sort (drop (length w + length vals - size_t_of_int ws) (w @ vals)))"
  using assms
proof (induction vals arbitrary: w)
  case Nil
  then show ?case by simp
next
  case (Cons v vals)
  define W where "W = size_t_of_int ws"
  define w1 where "w1 = drop (Suc (length w) - W) (w @ [v])"
  have step: "insert_containers ws v (w, sort w) = Inr (w1, sort w1)"
    unfolding w1_def W_def using Cons.prems by (rule insert_containers_sorted)
  have l1: "length w1 \<le> W" using Cons.prems by (simp add: w1_def W_def)
  have "insert_all_containers ws vals (w1, sort w1) =
           Inr (drop (length w1 + length vals - W) (w1 @ vals),
                sort (drop (length w1 + length vals - W) (w1 @ vals)))"
    unfolding W_def by (rule Cons.IH) (use l1 in \<open>simp add: W_def\<close>)
  moreover have "drop (length w1 + length vals - W) (w1 @ vals) =
                 drop (length w + length (v # vals) - W) (w @ v # vals)"
  proof (cases "length w < W")
    case True
    then show ?thesis by (simp add: w1_def)
  next
    case False
    with Cons.prems have full: "length w = W" by (simp add: W_def)
    show ?thesis
    proof (cases w)
      case Nil
      with full show ?thesis by (simp add: w1_def)
    next
      case (Cons a w')
      with full show ?thesis by (simp add: w1_def)
    qed
  qed
  ultimately show ?case by (simp add: step W_def)
qed

lemma eraseFromSorted_containers:
  assumes "eraseFromSorted v s = Inr s'"
  shows "\<exists>p. ms_erase (ms_find v (sortedValues s)) (sortedValues s) = Inr (p, sortedValues s') \<and>
             window s' = window s \<and> windowSize s' = windowSize s"
  using assms
  by (auto simp: eraseFromSorted_def Let_def bindE_def split: if_splits sum.splits)

lemma insert_value_containers:
  assumes r: "insert_value v s = Inr s'"
  shows "insert_containers (windowSize s) v (window s, sortedValues s) =
           Inr (window s', sortedValues s') \<and> windowSize s' = windowSize s"
proof -
  from r obtain s1 where i: "insertToSorted v (s\<lparr>window := window s @ [v]\<rparr>) = Inr s1"
    by (auto simp: insert_value_def bindE_def split: sum.splits)
  from insertToSorted_result[OF i] have s1: "sortedValues s1 = ms_insert v (sortedValues s)"
    "window s1 = window s @ [v]" "windowSize s1 = windowSize s" by simp_all
  show ?thesis
  proof (cases "length (window s1) > size_t_of_int (windowSize s1)")
    case False
    with r i have "s' = s1" by (simp add: insert_value_def)
    with False s1 show ?thesis by (simp add: insert_containers_def Let_def)
  next
    case True
    with r i obtain old s2 where f: "front (window s1) = Inr old"
      and e: "eraseFromSorted old s1 = Inr s2"
      and s': "s' = s2\<lparr>window := tl (window s2)\<rparr>"
      by (auto simp: insert_value_def bindE_def split: sum.splits)
    from eraseFromSorted_containers[OF e] obtain p where
      p: "ms_erase (ms_find old (sortedValues s1)) (sortedValues s1) = Inr (p, sortedValues s2)"
      and s2: "window s2 = window s1" "windowSize s2 = windowSize s1" by blast
    from True f p show ?thesis
      by (simp add: insert_containers_def Let_def s1[symmetric] s' s2)
  qed
qed

lemma insert_all_containers_link:
  assumes "insert_all vals s = Inr s'"
  shows "insert_all_containers (windowSize s) vals (window s, sortedValues s) =
           Inr (window s', sortedValues s')"
  using assms
proof (induction vals arbitrary: s)
  case Nil
  then show ?case by simp
next
  case (Cons v vals)
  from Cons.prems obtain s1 where s1: "insert_value v s = Inr s1" "insert_all vals s1 = Inr s'"
    by (auto simp: bindE_def split: sum.splits)
  from insert_value_containers[OF s1(1)] Cons.IH[OF s1(2)] show ?case by simp
qed

text \<open>
  With window size 2 and the stream 3, 3, 3, 5 the fourth call of \<^verbatim>\<open>insert\<close> reads the
  erased iterator, while the containers end as the window 3, 5 and the multiset 3, 5.
\<close>

lemma run_containers_2_3335: "run_containers 2 [3, 3, 3, 5] = Inr ([3, 5], [3, 5])"
  by (simp add: run_containers_def insert_containers_def wm_eval)

lemma run_2_3335: "run 2 [3, 3, 3, 5] = Inl UndefinedBehaviour"
  by (simp add: wm_eval)

text \<open>
  C4: for a positive window size and every stream of \<open>k\<close> values, the \<open>k\<close> insertions leave
  a window of \<open>min k windowSize\<close> values and a multiset with as many nodes that holds the
  same bag of values. This is what the container statements of \<^verbatim>\<open>insert\<close> compute for every
  stream; every run of the whole class that returns ends with this window and this
  multiset; and the whole class returns at least when the window size is odd, when the
  stream is no longer than the window, and when the stream has no repeated value.
\<close>

theorem sizes_after_insertions:
  assumes "0 <s ws"
  shows "\<exists>w vs. run_containers ws vals = Inr (w, vs) \<and>
           length w = min (length vals) (nat (sint ws)) \<and>
           length vs = length w \<and> mset vs = mset w \<and>
           (\<forall>s. run ws vals = Inr s \<longrightarrow> window s = w \<and> sortedValues s = vs) \<and>
           (odd (sint ws) \<or> length vals \<le> nat (sint ws) \<or> distinct vals \<longrightarrow>
              (\<exists>s. run ws vals = Inr s))"
proof -
  define W where "W = size_t_of_int ws"
  have W: "W = nat (sint ws)" using size_t_of_int_pos[OF assms] unfolding W_def by blast
  have sp: "0 < sint ws" using assms by (simp add: word_sless_alt)
  define w where "w = drop (length vals - W) vals"
  have "insert_all_containers ws vals ([], sort []) =
           Inr (drop (length ([]::int list) + length vals - size_t_of_int ws) ([] @ vals),
                sort (drop (length ([]::int list) + length vals - size_t_of_int ws) ([] @ vals)))"
    by (rule insert_all_containers_sorted) simp
  then have c: "run_containers ws vals = Inr (w, sort w)"
    by (simp add: run_containers_def w_def W_def)
  have l: "length w = min (length vals) (nat (sint ws))" by (simp add: w_def W)
  have link: "window s = w \<and> sortedValues s = sort w" if "run ws vals = Inr s" for s
  proof -
    from that have "insert_all vals \<lparr>windowSize = ws, window = [], sortedValues = [],
        itMedian = Singular\<rparr> = Inr s" by (simp add: run_def WindowedMedian_def)
    from insert_all_containers_link[OF this] c show ?thesis by (simp add: run_containers_def)
  qed
  have tot: "\<exists>s. run ws vals = Inr s"
    if "odd (sint ws) \<or> length vals \<le> nat (sint ws) \<or> distinct vals"
  proof (cases "distinct vals")
    case True
    have "0 < size_t_of_int ws" using size_t_of_int_pos[OF assms] by blast
    from run_inv_distinct[OF this True] show ?thesis by blast
  next
    case False
    with that sp have "odd (size_t_of_int ws) \<or> length vals \<le> size_t_of_int ws"
      by (auto simp: W[unfolded W_def] even_nat_iff)
    from run_inv[OF this] show ?thesis by blast
  qed
  from c l link tot show ?thesis by (intro exI[of _ w] exI[of _ "sort w"]) simp
qed

text \<open>The theorem at window size 2 and the stream 3, 3, 3, 5.\<close>

theorem sizes_after_insertions_witness:
  "0 <s (2 :: 32 word) \<and>
   (\<exists>w vs. run_containers 2 [3, 3, 3, 5] = Inr (w, vs) \<and> length w = 2 \<and>
       length vs = length w \<and> mset vs = mset w)"
proof -
  have h: "0 <s (2 :: 32 word)" by (simp add: word_sless_alt)
  from sizes_after_insertions[OF h, of "[3, 3, 3, 5]"] h show ?thesis by auto
qed

section \<open>Two streams with repeated values and an even window size\<close>

text \<open>
  With an even window size every removal happens at an odd size. When the value that
  leaves equals the value at the iterator, \<^verbatim>\<open>eraseFromSorted\<close> steps the iterator back and
  then erases the first node of the equal range, which lies at or in front of the
  iterator. In the first run below the erased node lies two ranks in front of the iterator,
  in the second it is the iterator's own node.
\<close>

lemma run_4_33379:
  "run 4 [3, 3, 3, 7, 9] =
     Inr \<lparr>windowSize = 4, window = [3, 3, 7, 9], sortedValues = [3, 3, 7, 9], itMedian = Pos 0\<rparr>"
  by (simp add: wm_eval)

lemma run_2_333:
  "run 2 [3, 3, 3] =
     Inr \<lparr>windowSize = 2, window = [3, 3], sortedValues = [3, 3], itMedian = Erased\<rparr>"
  by (simp add: wm_eval)

section \<open>Agreement with the naive median\<close>

text \<open>
  Where the intended state is kept, the two medians agree: while the window is filling
  and, for an odd window size, after every insertion.
\<close>

lemma run_agrees_with_naive:
  assumes "odd (size_t_of_int ws) \<or> length vals \<le> size_t_of_int ws" and "vals \<noteq> []"
    and "0 < size_t_of_int ws"
  shows "\<exists>s r. run ws vals = Inr s \<and> getMedian s = Inr r \<and> getMedianNaive s = Inr r"
proof -
  from run_inv[OF assms(1)] obtain s where s: "run ws vals = Inr s" "wm_inv s"
    "window s = drop (length vals - size_t_of_int ws) vals" by blast
  from assms(2,3) have "length vals - size_t_of_int ws < length vals" by (cases vals) auto
  with s(3) have ne: "window s \<noteq> []" by simp
  have "\<exists>r. getMedian s = Inr r"
    using getMedian_even[OF s(2) ne] getMedian_odd[OF s(2)] by (cases "even (length (window s))") auto
  with median_agrees[OF s(2) ne] s(1) show ?thesis by auto
qed

text \<open>
  C1: after each insertion \<^verbatim>\<open>getMedian\<close> is to equal \<^verbatim>\<open>getMedianNaive\<close>, as the assertion
  in \<^verbatim>\<open>test\<close> demands. With window size 4 and the stream 3, 3, 3, 7, 9 the code returns
  3 from \<^verbatim>\<open>getMedian\<close> and 5 from \<^verbatim>\<open>getMedianNaive\<close> after the fifth insertion.
\<close>

theorem median_differs_from_naive:
  "bindE (run 4 [3, 3, 3, 7, 9]) getMedian = Inr 3 \<and>
   bindE (run 4 [3, 3, 3, 7, 9]) getMedianNaive = Inr 5"
  by (simp add: run_4_33379 getMedian_def getMedianNaive_def deref_def it_inc_def list_at_def
        Let_def f32_mean_exact)

section \<open>The position of the iterator\<close>

text \<open>
  C2: after every insertion and removal the iterator is to denote the node of rank
  \<open>\<lfloor>(n - 1) / 2\<rfloor>\<close>. After the stream 3, 3, 3, 7, 9 with window size 4 the multiset has
  four nodes and the iterator denotes rank 0, not rank 1.
\<close>

theorem cursor_off_lower_median:
  "run 4 [3, 3, 3, 7, 9] =
     Inr \<lparr>windowSize = 4, window = [3, 3, 7, 9], sortedValues = [3, 3, 7, 9], itMedian = Pos 0\<rparr> \<and>
   Pos 0 \<noteq> Pos ((length [3, 3, 7, 9 :: int] - 1) div 2)"
  by (simp add: run_4_33379)

text \<open>
  C3: when the value that leaves equals the value at the iterator and has duplicates, the
  node erased is to be another one than the node the moved iterator denotes. With window
  size 2 and the stream 3, 3, 3, the third call of \<^verbatim>\<open>insert\<close> moves the iterator to rank 1,
  \<^verbatim>\<open>eraseFromSorted\<close> moves it back to rank 0, \<^verbatim>\<open>find\<close> returns rank 0, and \<^verbatim>\<open>erase\<close>
  removes that very node: the iterator is left on an erased node.
\<close>

theorem erase_removes_cursor_node:
  "run 2 [3, 3] =
     Inr \<lparr>windowSize = 2, window = [3, 3], sortedValues = [3, 3], itMedian = Pos 0\<rparr> \<and>
   insertToSorted 3 \<lparr>windowSize = 2, window = [3, 3, 3], sortedValues = [3, 3], itMedian = Pos 0\<rparr> =
     Inr \<lparr>windowSize = 2, window = [3, 3, 3], sortedValues = [3, 3, 3], itMedian = Pos 1\<rparr> \<and>
   it_dec [3, 3, 3] (Pos 1) = Inr (Pos 0) \<and>
   ms_find 3 [3, 3, 3] = Pos 0 \<and>
   eraseFromSorted 3 \<lparr>windowSize = 2, window = [3, 3, 3], sortedValues = [3, 3, 3], itMedian = Pos 1\<rparr> =
     Inr \<lparr>windowSize = 2, window = [3, 3, 3], sortedValues = [3, 3], itMedian = Erased\<rparr>"
  by (simp add: wm_eval)

section \<open>Reading the median\<close>

text \<open>
  C6, as the code has it: \<^verbatim>\<open>getMedian\<close> checks nothing. On a structure that has seen no
  insertion the size is 0, which is even, and the function dereferences the iterator that
  was never assigned. That is undefined behaviour; no EmptyStateError is raised.
\<close>

theorem median_before_insert_undefined:
  "bindE (WindowedMedian ws) getMedian = Inl UndefinedBehaviour"
  by (simp add: WindowedMedian_def getMedian_def deref_def)

text \<open>
  C6 as stated fails for window size 3: the outcome of \<^verbatim>\<open>getMedian\<close> on the fresh structure
  is not EmptyStateError.
\<close>

theorem median_before_insert_counterexample:
  "bindE (WindowedMedian 3) getMedian \<noteq> Inl EmptyStateError \<and>
   bindE (WindowedMedian 3) getMedian = Inl UndefinedBehaviour"
  by (simp add: WindowedMedian_def getMedian_def deref_def)

text \<open>
  C9: in every state reached by at least one insertion, \<^verbatim>\<open>getMedian\<close> is to leave the
  structure unchanged and to return the same value on every call. The state reached with
  window size 2 by the stream 3, 3, 3 has its iterator on an erased node, and \<^verbatim>\<open>getMedian\<close>
  dereferences it: the call has undefined behaviour and returns no defined value.
\<close>

theorem median_on_erased_cursor:
  "run 2 [3, 3, 3] =
     Inr \<lparr>windowSize = 2, window = [3, 3], sortedValues = [3, 3], itMedian = Erased\<rparr> \<and>
   getMedian \<lparr>windowSize = 2, window = [3, 3], sortedValues = [3, 3], itMedian = Erased\<rparr> =
     Inl UndefinedBehaviour"
  by (simp add: run_2_333 getMedian_def deref_def)

section \<open>A stream of one value\<close>

lemma sort_replicate_nth: "i < n \<Longrightarrow> sort (replicate n (v::int)) ! i = v"
proof -
  assume "i < n"
  then have "sort (replicate n v) ! i \<in> set (sort (replicate n v))" by (intro nth_mem) simp
  then show ?thesis by (simp split: if_splits)
qed

text \<open>
  C7, as the code has it: for a positive window size \<open>W\<close> and \<open>W\<close> insertions of \<open>v\<close>,
  and for every longer stream of \<open>v\<close> when \<open>W\<close> is odd, \<^verbatim>\<open>getMedian\<close> returns the float
  of \<open>v\<close>, for odd and for even sizes. The float of \<open>v\<close> is \<open>v\<close> itself when
  \<open>\<bar>v\<bar> \<le> 2\<^sup>2\<^sup>4\<close>.
\<close>

theorem same_value_median:
  assumes pos: "0 <s ws" and k: "nat (sint ws) \<le> k"
    and par: "k = nat (sint ws) \<or> odd (sint ws)"
  shows "bindE (run ws (replicate k v)) getMedian = Inr (f32_of_int v) \<and>
         (\<bar>v\<bar> \<le> 2 ^ 24 \<longrightarrow> f32_of_int v = of_int v)"
proof -
  define W where "W = size_t_of_int ws"
  have W: "W = nat (sint ws)" "0 < W"
    using size_t_of_int_pos[OF pos] unfolding W_def by blast+
  have sp: "0 < sint ws" using pos by (simp add: word_sless_alt)
  have "odd W" if "odd (sint ws)"
    using that sp by (simp add: W(1) even_nat_iff)
  with par W(1) have "odd W \<or> length (replicate k v) \<le> W" by auto
  from run_inv[OF this[unfolded W_def]] obtain s where s: "run ws (replicate k v) = Inr s"
    "wm_inv s" "window s = drop (length (replicate k v) - W) (replicate k v)"
    unfolding W_def by blast
  from s(3) k W have w: "window s = replicate W v" by simp
  with W have ne: "window s \<noteq> []" by simp
  have "getMedian s = Inr (f32_of_int v)"
  proof (cases "even (length (window s))")
    case True
    with ne have "length (window s) div 2 - 1 < W" "length (window s) div 2 < W"
      unfolding w by (simp_all add: W)
    then show ?thesis
      unfolding getMedian_even[OF s(2) ne True] w by (simp add: sort_replicate_nth f32_mean_same)
  next
    case False
    with W have "length (window s) div 2 < W" unfolding w by simp
    then show ?thesis
      unfolding getMedian_odd[OF s(2) False] w by (simp add: sort_replicate_nth)
  qed
  then show ?thesis by (simp add: s(1) f32_of_int_exact)
qed

text \<open>
  The theorem at window size 3 and five insertions of 7.
\<close>

theorem same_value_median_witness:
  "0 <s (3 :: 32 word) \<and> nat (sint (3 :: 32 word)) \<le> 5 \<and>
   bindE (run 3 (replicate 5 7)) getMedian = Inr (f32_of_int 7) \<and>
   f32_of_int 7 = of_int 7"
proof -
  have h1: "0 <s (3 :: 32 word)" by (simp add: word_sless_alt)
  have h2: "nat (sint (3 :: 32 word)) \<le> 5" by simp
  have h3: "5 = nat (sint (3 :: 32 word)) \<or> odd (sint (3 :: 32 word))" by simp
  have h4: "\<bar>7 :: int\<bar> \<le> 2 ^ 24" by simp
  from same_value_median[OF h1 h2 h3, of 7] h1 h2 h4 show ?thesis by blast
qed

text \<open>
  C7 as stated fails: with window size 1 and \<open>v = 2\<^sup>2\<^sup>4 + 1\<close> the median returned is
  \<open>2\<^sup>2\<^sup>4\<close>; and with window size 2 the third insertion of 3 leaves the iterator on an
  erased node, so that \<^verbatim>\<open>getMedian\<close> has undefined behaviour.
\<close>

theorem same_value_counterexample:
  "bindE (run 1 [16777217]) getMedian = Inr 16777216 \<and>
   bindE (run 1 [16777217]) getMedian \<noteq> Inr 16777217 \<and>
   bindE (run 2 [3, 3, 3]) getMedian = Inl UndefinedBehaviour"
  by (simp add: wm_eval getMedian_def f32_of_int_16777217)

section \<open>The median of an even population\<close>




section \<open>A negative window size\<close>

text \<open>
  C10: a negative \<^verbatim>\<open>_windowSize\<close> is converted to the \<^verbatim>\<open>size_t\<close> value
  \<open>2\<^sup>6\<^sup>4 + _windowSize\<close>, which is at least \<open>2\<^sup>6\<^sup>4 - 2\<^sup>3\<^sup>1\<close>. No window whose length a
  \<^verbatim>\<open>size_t\<close> below that bound can hold exceeds it: every insertion succeeds and nothing is
  ever removed, so the window is the whole stream and the multiset the sorted stream.
\<close>

theorem negative_window_never_evicts:
  assumes "ws <s 0" and "length vals \<le> 2 ^ 64 - 2 ^ 31"
  shows "size_t_of_int ws = nat (sint ws + 2 ^ 64) \<and>
         (\<exists>s. run ws vals = Inr s \<and> window s = vals \<and> sortedValues s = sort vals)"
proof -
  from size_t_of_int_neg[OF assms(1)] have sz: "size_t_of_int ws = nat (sint ws + 2 ^ 64)"
    and big: "2 ^ 64 - 2 ^ 31 \<le> size_t_of_int ws" by simp_all
  from big assms(2) have le: "length vals \<le> size_t_of_int ws" by (rule order_trans[rotated])
  then have "odd (size_t_of_int ws) \<or> length vals \<le> size_t_of_int ws" ..
  from run_inv[OF this] obtain s where s: "run ws vals = Inr s" "wm_inv s"
    "window s = drop (length vals - size_t_of_int ws) vals" by blast
  from s(3) le have "window s = vals" by simp
  moreover from this s(2) have "sortedValues s = sort vals" by (simp add: wm_inv_def)
  ultimately show ?thesis using sz s(1) by blast
qed

text \<open>
  The theorem at window size -1 and the stream 3, 1, 2.
\<close>

theorem negative_window_never_evicts_witness:
  "(- 1 :: 32 word) <s 0 \<and> length [3, 1, 2 :: int] \<le> 2 ^ 64 - 2 ^ 31 \<and>
   size_t_of_int (- 1) = nat (sint (- 1 :: 32 word) + 2 ^ 64) \<and>
   (\<exists>s. run (- 1) [3, 1, 2] = Inr s \<and> window s = [3, 1, 2] \<and> sortedValues s = sort [3, 1, 2])"
proof -
  have h1: "(- 1 :: 32 word) <s 0" by (simp add: word_sless_alt)
  have h2: "length [3, 1, 2 :: int] \<le> 2 ^ 64 - 2 ^ 31" by simp
  from negative_window_never_evicts[OF h1 h2] h1 h2 show ?thesis by blast
qed

end
